theory Spec2Isabelle
  imports Main
begin

section \<open>Strings and URIs\<close>

text \<open>
  A JavaScript string is a sequence of UTF-16 code units; a code unit is modelled by its
  number. \<open>str\<close> turns an ASCII literal into such a sequence.
\<close>

type_synonym jsstring = "nat list"

definition str :: "string \<Rightarrow> jsstring" where
  "str s = map of_char s"

text \<open>
  Modelled from the spec: the host's \<open>vscode.Uri\<close> class is not part of the sources. A URI
  is its five components, and \<open>uri.with({scheme, path, query})\<close> replaces the three named
  components and keeps the others. \<open>uri.toString()\<close>, \<open>Uri.parse\<close> and \<open>uri.fsPath\<close> are
  parameters of the functions of the extension that call them; the string form of a URI
  is modelled further down.
\<close>

record Uri =
  scheme :: jsstring
  authority :: jsstring
  path :: jsstring
  query :: jsstring
  fragment :: jsstring

record TextDocument =
  languageId :: jsstring
  uri :: Uri

text \<open>\<open>isMarkdownFile\<close>: the language is markdown and the document is not a generated one.\<close>

definition isMarkdownFile :: "TextDocument \<Rightarrow> bool" where
  "isMarkdownFile document \<longleftrightarrow>
     languageId document = str ''markdown'' \<and> scheme (uri document) \<noteq> str ''markdown''"

text \<open>\<open>getMarkdownUri\<close>, with \<open>toString\<close> the host's serialisation of a URI.\<close>

definition getMarkdownUri :: "(Uri \<Rightarrow> jsstring) \<Rightarrow> Uri \<Rightarrow> Uri" where
  "getMarkdownUri toString u =
     u\<lparr>scheme := str ''markdown'', path := path u @ str ''.rendered'', query := toString u\<rparr>"

text \<open>
  \<open>showSource\<close> given a preview URI: the document it looks for and opens is
  \<open>Uri.parse(mdUri.query)\<close>.
\<close>

definition showSource_docUri :: "(jsstring \<Rightarrow> Uri) \<Rightarrow> Uri \<Rightarrow> Uri" where
  "showSource_docUri parse mdUri = parse (query mdUri)"

subsection \<open>The string form of a URI\<close>

text \<open>
  Modelled from the spec: the serialisation and the parser of \<open>vscode.Uri\<close>
  (\<open>uri.toString()\<close> and \<open>Uri.parse\<close>) are not part of the sources. The spec writes a
  preview URI as \<^verbatim>\<open>markdown:<uri>.rendered?<original-uri>\<close> and calls the query a
  round-trip-safe serialisation of the original URI. So the string form is the scheme and
  a colon, two slashes before the authority (also for the scheme \<open>file\<close>), the path, the
  query after a question mark and the fragment after a hash sign, with the components
  percent-encoded; the parser splits at these delimiters and decodes the components.

  Percent-encoding: a code unit is written in UTF-8 (a surrogate on its own, as three
  octets), and every octet but the letters, the digits and \<open>-_.~\<close> as a percent sign and two
  hexadecimal digits. The slashes of a path are kept.
\<close>

definition unreserved :: "nat \<Rightarrow> bool" where
  "unreserved c \<longleftrightarrow>
     (48 \<le> c \<and> c \<le> 57) \<or> (65 \<le> c \<and> c \<le> 90) \<or> (97 \<le> c \<and> c \<le> 122)
     \<or> c = 45 \<or> c = 95 \<or> c = 46 \<or> c = 126"

definition hex :: "nat \<Rightarrow> nat" where
  "hex d = (if d < 10 then 48 + d else 55 + d)"

definition unhex :: "nat \<Rightarrow> nat option" where
  "unhex c =
     (if 48 \<le> c \<and> c \<le> 57 then Some (c - 48)
      else if 65 \<le> c \<and> c \<le> 70 then Some (c - 55)
      else if 97 \<le> c \<and> c \<le> 102 then Some (c - 87)
      else None)"

definition utf8 :: "nat \<Rightarrow> nat list" where
  "utf8 c =
     (if c < 128 then [c]
      else if c < 2048 then [192 + c div 64, 128 + c mod 64]
      else [224 + c div 4096, 128 + c div 64 mod 64, 128 + c mod 64])"

definition pct :: "nat \<Rightarrow> jsstring" where
  "pct b = (if unreserved b then [b] else [37, hex (b div 16), hex (b mod 16)])"

definition encodeComponent :: "jsstring \<Rightarrow> jsstring" where
  "encodeComponent s = concat (map pct (concat (map utf8 s)))"

definition encodePath :: "jsstring \<Rightarrow> jsstring" where
  "encodePath p = concat (map (\<lambda>c. if c = 47 then [47] else encodeComponent [c]) p)"

text \<open>Decoding: the escapes back to octets, the octets back to code units. What is no
  escape, or no complete sequence, is kept as it is.\<close>

fun unpct :: "jsstring \<Rightarrow> nat list" where
  "unpct [] = []"
| "unpct (c # cs) =
     (if c = 37
      then (case cs of
              h1 # h2 # r \<Rightarrow>
                (case (unhex h1, unhex h2) of
                   (Some a, Some b) \<Rightarrow> (16 * a + b) # unpct r
                 | _ \<Rightarrow> c # unpct cs)
            | _ \<Rightarrow> c # unpct cs)
      else c # unpct cs)"

fun utf8_decode :: "nat list \<Rightarrow> jsstring" where
  "utf8_decode [] = []"
| "utf8_decode (b # bs) =
     (if b < 192 then b # utf8_decode bs
      else if b < 224
      then (case bs of
              b2 # r \<Rightarrow> ((b - 192) * 64 + (b2 - 128)) # utf8_decode r
            | [] \<Rightarrow> [b])
      else (case bs of
              b2 # b3 # r \<Rightarrow> (((b - 224) * 64 + (b2 - 128)) * 64 + (b3 - 128)) # utf8_decode r
            | _ \<Rightarrow> b # utf8_decode bs))"

definition decodeComponent :: "jsstring \<Rightarrow> jsstring" where
  "decodeComponent s = utf8_decode (unpct s)"

definition Uri_toString :: "Uri \<Rightarrow> jsstring" where
  "Uri_toString u =
     (if scheme u \<noteq> [] then scheme u @ [58] else [])
     @ (if authority u \<noteq> [] \<or> scheme u = str ''file'' then [47, 47] else [])
     @ encodeComponent (authority u)
     @ encodePath (path u)
     @ (if query u \<noteq> [] then [63] @ encodeComponent (query u) else [])
     @ (if fragment u \<noteq> [] then [35] @ encodeComponent (fragment u) else [])"

text \<open>
  The parser reads a scheme up to the first colon if no other delimiter comes before it,
  an authority after two slashes up to the next slash, question mark or hash sign, the
  path up to a question mark or hash sign, the query up to a hash sign, and the fragment.
\<close>

definition Uri_parse :: "jsstring \<Rightarrow> Uri" where
  "Uri_parse s =
     (let p = takeWhile (\<lambda>c. c \<notin> {58, 47, 63, 35}) s;
          has_scheme = (p \<noteq> [] \<and> take 1 (drop (length p) s) = [58]);
          r1 = (if has_scheme then drop (length p + 1) s else s);
          has_authority = (take 2 r1 = [47, 47]);
          a = (if has_authority then takeWhile (\<lambda>c. c \<notin> {47, 63, 35}) (drop 2 r1) else []);
          r2 = (if has_authority then dropWhile (\<lambda>c. c \<notin> {47, 63, 35}) (drop 2 r1) else r1);
          r3 = dropWhile (\<lambda>c. c \<notin> {63, 35}) r2;
          has_query = (take 1 r3 = [63]);
          r4 = (if has_query then dropWhile (\<lambda>c. c \<noteq> 35) (drop 1 r3) else r3)
      in \<lparr>scheme = (if has_scheme then p else []),
          authority = decodeComponent a,
          path = decodeComponent (takeWhile (\<lambda>c. c \<notin> {63, 35}) r2),
          query = decodeComponent (if has_query then takeWhile (\<lambda>c. c \<noteq> 35) (drop 1 r3) else []),
          fragment = decodeComponent (if take 1 r4 = [35] then drop 1 r4 else [])\<rparr>)"

text \<open>What is left of a string form once scheme, authority and path are read.\<close>

definition rest_after_path :: "jsstring \<Rightarrow> jsstring" where
  "rest_after_path s =
     (let p = takeWhile (\<lambda>c. c \<notin> {58, 47, 63, 35}) s;
          r1 = (if p \<noteq> [] \<and> take 1 (drop (length p) s) = [58] then drop (length p + 1) s else s);
          r2 = (if take 2 r1 = [47, 47] then dropWhile (\<lambda>c. c \<notin> {47, 63, 35}) (drop 2 r1) else r1)
      in dropWhile (\<lambda>c. c \<notin> {63, 35}) r2)"

text \<open>A string of JavaScript holds UTF-16 code units; a URI made of such strings.\<close>

definition js_string :: "jsstring \<Rightarrow> bool" where
  "js_string s \<longleftrightarrow> (\<forall>c \<in> set s. c < 65536)"

definition js_uri :: "Uri \<Rightarrow> bool" where
  "js_uri u \<longleftrightarrow> js_string (scheme u) \<and> js_string (authority u) \<and> js_string (path u)
     \<and> js_string (query u) \<and> js_string (fragment u)"

text \<open>
  A well-formed URI: it has a scheme without delimiters, its path is empty or starts with
  a slash when two slashes are written before it, and does not start with two slashes
  otherwise.
\<close>

definition wf_uri :: "Uri \<Rightarrow> bool" where
  "wf_uri u \<longleftrightarrow>
     scheme u \<noteq> [] \<and> (\<forall>c \<in> set (scheme u). c \<notin> {58, 47, 63, 35})
     \<and> (if authority u \<noteq> [] \<or> scheme u = str ''file''
        then path u = [] \<or> take 1 (path u) = [47]
        else take 2 (path u) \<noteq> [47, 47])"

section \<open>The content provider's debounced refresh\<close>

text \<open>
  The provider's \<open>_waiting\<close> flag, the log of the URIs fired on \<open>_onDidChange\<close>, and the part
  of the host's event loop that \<open>update\<close> uses: the clock and the pending \<open>setTimeout\<close>
  callbacks, each with its due time and the URI its closure captured.
\<close>

record provider =
  waiting :: bool
  fired :: "Uri list"
  timers :: "(nat \<times> Uri) list"
  clock :: nat

text \<open>The constructor sets \<open>_waiting = false\<close>; nothing is pending and nothing was fired.\<close>

definition new_provider :: provider where
  "new_provider = \<lparr>waiting = False, fired = [], timers = [], clock = 0\<rparr>"

definition update :: "Uri \<Rightarrow> provider \<Rightarrow> provider" where
  "update u p =
     (if \<not> waiting p
      then p\<lparr>waiting := True, timers := timers p @ [(clock p + 300, u)]\<rparr>
      else p)"

text \<open>The body of the callback given to \<open>setTimeout\<close>.\<close>

definition timeout_callback :: "Uri \<Rightarrow> provider \<Rightarrow> provider" where
  "timeout_callback u p = p\<lparr>waiting := False, fired := fired p @ [u]\<rparr>"

text \<open>Time passes: the callbacks that are due by then run, in the order of their due times.\<close>

definition elapse :: "nat \<Rightarrow> provider \<Rightarrow> provider" where
  "elapse d p =
     (let t = clock p + d;
          due = filter (\<lambda>(e, u). e \<le> t) (timers p);
          later = filter (\<lambda>(e, u). \<not> e \<le> t) (timers p)
      in fold timeout_callback (map snd (sort_key fst due)) (p\<lparr>timers := later, clock := t\<rparr>))"

datatype event = Update Uri | Elapse nat

fun step :: "event \<Rightarrow> provider \<Rightarrow> provider" where
  "step (Update u) p = update u p"
| "step (Elapse d) p = elapse d p"

definition run :: "event list \<Rightarrow> provider \<Rightarrow> provider" where
  "run evs p = fold step evs p"

fun duration :: "event list \<Rightarrow> nat" where
  "duration [] = 0"
| "duration (Update u # evs) = duration evs"
| "duration (Elapse d # evs) = d + duration evs"

text \<open>The listeners that \<open>activate\<close> registers on saved and changed documents.\<close>

definition onDidSaveTextDocument ::
  "(Uri \<Rightarrow> jsstring) \<Rightarrow> TextDocument \<Rightarrow> provider \<Rightarrow> provider" where
  "onDidSaveTextDocument toString document p =
     (if isMarkdownFile document then update (getMarkdownUri toString (uri document)) p else p)"

definition onDidChangeTextDocument ::
  "(Uri \<Rightarrow> jsstring) \<Rightarrow> TextDocument \<Rightarrow> provider \<Rightarrow> provider" where
  "onDidChangeTextDocument toString document p =
     (if isMarkdownFile document then update (getMarkdownUri toString (uri document)) p else p)"

text \<open>The state is consistent: a timer is pending exactly when the flag is set, and then
  it is the only one.\<close>

definition consistent :: "provider \<Rightarrow> bool" where
  "consistent p \<longleftrightarrow> (if waiting p then \<exists>t u. timers p = [(t, u)] else timers p = [])"

section \<open>Hiding the front matter\<close>

text \<open>
  The regular expressions of JavaScript that \<open>getDocumentContentForPreview\<close> needs, as
  a datatype: \<open>Chr c\<close> is a literal code unit, \<open>Dot\<close> is \<open>.\<close>, \<open>Cls cs\<close> a character class,
  \<open>Bol\<close> the assertion \<open>^\<close>, \<open>Star\<close> the greedy and \<open>LazyStar\<close> the lazy \<open>*\<close>. Capture
  groups only group here (the replacement is the empty string), so they are not marked.
\<close>

datatype re = Eps | Chr nat | Dot | Cls "nat list" | Bol | Seq re re | Alt re re | Star re | LazyStar re

text \<open>Without the \<open>s\<close> flag, \<open>.\<close> matches every code unit but the four line terminators.\<close>

definition isLineTerminator :: "nat \<Rightarrow> bool" where
  "isLineTerminator c \<longleftrightarrow> c = 10 \<or> c = 13 \<or> c = 8232 \<or> c = 8233"

text \<open>
  The backtracking matcher. \<open>ms n r s\<close> lists what can remain of the input \<open>s\<close> after a
  match of \<open>r\<close> at its start, in the order in which backtracking tries the alternatives:
  the left branch of \<open>|\<close> first, as many iterations as possible first for \<open>*\<close>, as few as
  possible first for \<open>*?\<close>. The head of the list is the match the engine reports.
  \<open>n\<close> is the length of the whole input: without the \<open>m\<close> flag, \<open>^\<close> holds only where
  nothing has been consumed. An iteration of a star that consumes nothing is rejected.
\<close>

fun ms :: "nat \<Rightarrow> re \<Rightarrow> jsstring \<Rightarrow> jsstring list" where
  "ms n Eps s = [s]"
| "ms n (Chr c) s = (case s of [] \<Rightarrow> [] | x # xs \<Rightarrow> if x = c then [xs] else [])"
| "ms n Dot s = (case s of [] \<Rightarrow> [] | x # xs \<Rightarrow> if isLineTerminator x then [] else [xs])"
| "ms n (Cls cs) s = (case s of [] \<Rightarrow> [] | x # xs \<Rightarrow> if x \<in> set cs then [xs] else [])"
| "ms n Bol s = (if length s = n then [s] else [])"
| "ms n (Seq r1 r2) s = concat (map (ms n r2) (ms n r1 s))"
| "ms n (Alt r1 r2) s = ms n r1 s @ ms n r2 s"
| "ms n (Star r) s =
     concat (map (ms n (Star r)) (filter (\<lambda>s'. length s' < length s) (ms n r s))) @ [s]"
| "ms n (LazyStar r) s =
     s # concat (map (ms n (LazyStar r)) (filter (\<lambda>s'. length s' < length s) (ms n r s)))"

text \<open>The counted repetition \<open>r{k}\<close>.\<close>

fun times :: "nat \<Rightarrow> re \<Rightarrow> re" where
  "times 0 r = Eps"
| "times (Suc k) r = Seq r (times k r)"

text \<open>
  A regular expression without the \<open>g\<close> flag is tried at each index from the left;
  \<open>search\<close> returns the text before the first match and the text after it.
\<close>

fun search :: "nat \<Rightarrow> re \<Rightarrow> jsstring \<Rightarrow> jsstring \<Rightarrow> (jsstring \<times> jsstring) option" where
  "search n r pre s =
     (case ms n r s of
        rest # _ \<Rightarrow> Some (pre, rest)
      | [] \<Rightarrow> (case s of [] \<Rightarrow> None | x # xs \<Rightarrow> search n r (pre @ [x]) xs))"

text \<open>\<open>s.replace(r, replacement)\<close> for such an \<open>r\<close> and a replacement without patterns.\<close>

definition replace_first :: "re \<Rightarrow> jsstring \<Rightarrow> jsstring \<Rightarrow> jsstring" where
  "replace_first r replacement s =
     (case search (length s) r [] s of
        None \<Rightarrow> s
      | Some (pre, rest) \<Rightarrow> pre @ replacement @ rest)"

text \<open>
  The pattern \<^verbatim>\<open>/^-{3}[ \t]*(\r\n|\n)(.|\r\n|\n)*?(\r\n|\n)-{3}[ \t]*(\r\n|\n)/\<close>, with
  names for \<^verbatim>\<open>(\r\n|\n)\<close>, \<^verbatim>\<open>-{3}\<close> and \<^verbatim>\<open>[ \t]*\<close>.
\<close>

definition newline :: re where
  "newline = Alt (Seq (Chr 13) (Chr 10)) (Chr 10)"

definition dashes :: re where
  "dashes = times 3 (Chr 45)"

definition blanks :: re where
  "blanks = Star (Cls [32, 9])"

definition frontMatter :: re where
  "frontMatter =
     Seq Bol (Seq dashes (Seq blanks (Seq newline
       (Seq (LazyStar (Alt Dot newline))
       (Seq newline (Seq dashes (Seq blanks newline)))))))"

text \<open>\<open>previewFrontMatter\<close> is the configured value, \<open>content\<close> the document's text.\<close>

definition getDocumentContentForPreview :: "jsstring \<Rightarrow> jsstring \<Rightarrow> jsstring" where
  "getDocumentContentForPreview previewFrontMatter content =
     (if previewFrontMatter = str ''hide'' then replace_first frontMatter [] content else content)"

subsection \<open>The shape of a front-matter block\<close>

text \<open>
  The vocabulary in which the properties of the pattern are stated. A blank is a space or a
  tab; \<open>strip_newline\<close> removes a line break (\<open>\r\n\<close> or \<open>\n\<close>) from the front of a text;
  \<open>delimiter_line\<close> removes a delimiter line, that is three dashes, any blanks and a line
  break; \<open>closing\<close> removes a line break followed by a delimiter line.
\<close>

definition blank :: "nat \<Rightarrow> bool" where
  "blank c \<longleftrightarrow> c = 32 \<or> c = 9"

definition strip_newline :: "jsstring \<Rightarrow> jsstring option" where
  "strip_newline s =
     (case s of
        [] \<Rightarrow> None
      | x # xs \<Rightarrow>
          if x = 10 then Some xs
          else if x = 13 then (case xs of [] \<Rightarrow> None | y # ys \<Rightarrow> if y = 10 then Some ys else None)
          else None)"

definition strip_dashes :: "jsstring \<Rightarrow> jsstring option" where
  "strip_dashes s = (if take 3 s = [45, 45, 45] then Some (drop 3 s) else None)"

definition delimiter_line :: "jsstring \<Rightarrow> jsstring option" where
  "delimiter_line s =
     (case strip_dashes s of None \<Rightarrow> None | Some t \<Rightarrow> strip_newline (dropWhile blank t))"

definition closing :: "jsstring \<Rightarrow> jsstring option" where
  "closing s = (case strip_newline s of None \<Rightarrow> None | Some t \<Rightarrow> delimiter_line t)"

text \<open>
  One unit of the block's body, as \<^verbatim>\<open>(.|\r\n|\n)\<close> consumes it: a code unit that
  is no line terminator, or a line break. A lone \<open>\r\<close>, U+2028 and U+2029 are no unit.
\<close>

definition unit_step :: "jsstring \<Rightarrow> jsstring option" where
  "unit_step s =
     (case s of
        [] \<Rightarrow> None
      | x # xs \<Rightarrow>
          if \<not> isLineTerminator x then Some xs
          else if x = 13 then (case xs of [] \<Rightarrow> None | y # ys \<Rightarrow> if y = 10 then Some ys else None)
          else if x = 10 then Some xs
          else None)"

text \<open>The text after the first closing delimiter met when walking \<open>s\<close> unit by unit.\<close>

function first_closing :: "jsstring \<Rightarrow> jsstring option" where
  "first_closing s =
     (case closing s of
        Some r \<Rightarrow> Some r
      | None \<Rightarrow> (case unit_step s of None \<Rightarrow> None | Some t \<Rightarrow> first_closing t))"
  by pat_completeness auto
termination
  by (relation "measure length") (auto simp: unit_step_def split: list.splits if_splits)

text \<open>
  \<open>body_clear b tail\<close>: the body \<open>b\<close>, followed by \<open>tail\<close>, is a sequence of units and no
  closing delimiter starts at the beginning of one of them.
\<close>

function body_clear :: "jsstring \<Rightarrow> jsstring \<Rightarrow> bool" where
  "body_clear b tail =
     (if b = [] then True
      else closing (b @ tail) = None \<and>
           (case unit_step b of None \<Rightarrow> False | Some b' \<Rightarrow> body_clear b' tail))"
  by pat_completeness auto
termination
  by (relation "measure (\<lambda>(b, tail). length b)")
    (auto simp: unit_step_def split: list.splits if_splits)

text \<open>A closing delimiter starts somewhere in the text.\<close>

fun has_closing :: "jsstring \<Rightarrow> bool" where
  "has_closing [] = False"
| "has_closing (x # xs) = (closing (x # xs) \<noteq> None \<or> has_closing xs)"

text \<open>What the pattern after \<open>^\<close>, the opening line and its line break can leave.\<close>

definition closings :: "nat \<Rightarrow> jsstring \<Rightarrow> jsstring list" where
  "closings n s =
     ms n (Seq (LazyStar (Alt Dot newline)) (Seq newline (Seq dashes (Seq blanks newline)))) s"

section \<open>Code blocks\<close>

text \<open>
  The \<open>highlight\<close> callback given to the Markdown engine. The libraries are parameters:
  \<open>getLanguage lang\<close> says whether \<open>hljs.getLanguage(lang)\<close> is truthy, \<open>hljs_highlight\<close> is
  \<open>hljs.highlight(lang, str, true).value\<close> and returns \<open>Inl\<close> when it throws, \<open>escapeHtml\<close>
  is \<open>md.utils.escapeHtml\<close>. A string is truthy when it is not empty.
\<close>

definition highlight ::
  "(jsstring \<Rightarrow> bool) \<Rightarrow> (jsstring \<Rightarrow> jsstring \<Rightarrow> 'e + jsstring) \<Rightarrow> (jsstring \<Rightarrow> jsstring)
     \<Rightarrow> jsstring \<Rightarrow> jsstring \<Rightarrow> jsstring" where
  \<open>highlight getLanguage hljs_highlight escapeHtml code lang =
     (if lang \<noteq> [] \<and> getLanguage lang
      then (case hljs_highlight lang code of
              Inr v \<Rightarrow> str ''<pre class="hljs"><code><div>'' @ v @ str ''</div></code></pre>''
            | Inl error \<Rightarrow>
                str ''<pre class="hljs"><code><div>'' @ escapeHtml code
                  @ str ''</div></code></pre>'')
      else str ''<pre class="hljs"><code><div>'' @ escapeHtml code @ str ''</div></code></pre>'')\<close>

section \<open>Style sheet references\<close>

text \<open>
  What \<open>fixHref\<close> asks of the host and of Node's \<open>path\<close> module: \<open>uri_parse_scheme s\<close> is
  \<open>vscode.Uri.parse(s).scheme\<close>, \<open>uri_file_toString p\<close> is \<open>vscode.Uri.file(p).toString()\<close>,
  \<open>rootPath\<close> is \<open>vscode.workspace.rootPath\<close> (\<open>None\<close> when undefined) and \<open>fsPath\<close> the
  getter of a URI.
\<close>

record host =
  uri_parse_scheme :: "jsstring \<Rightarrow> jsstring"
  uri_file_toString :: "jsstring \<Rightarrow> jsstring"
  path_normalize :: "jsstring \<Rightarrow> jsstring"
  path_resolve :: "jsstring \<Rightarrow> jsstring"
  path_join :: "jsstring \<Rightarrow> jsstring \<Rightarrow> jsstring"
  path_dirname :: "jsstring \<Rightarrow> jsstring"
  rootPath :: "jsstring option"
  fsPath :: "Uri \<Rightarrow> jsstring"

definition isAbsolute :: "host \<Rightarrow> jsstring \<Rightarrow> bool" where
  "isAbsolute h p \<longleftrightarrow>
     path_normalize h (p @ str ''/'') = path_normalize h (path_resolve h p @ str ''/'')"

definition fixHref :: "host \<Rightarrow> Uri \<Rightarrow> jsstring \<Rightarrow> jsstring" where
  "fixHref h resource href =
     (if href \<noteq> [] then
        if uri_parse_scheme h href \<noteq> [] then href
        else if isAbsolute h href then uri_file_toString h href
        else (case rootPath h of
                Some root \<Rightarrow>
                  if root \<noteq> [] then uri_file_toString h (path_join h root href)
                  else uri_file_toString h (path_join h (path_dirname h (fsPath h resource)) href)
              | None \<Rightarrow>
                  uri_file_toString h (path_join h (path_dirname h (fsPath h resource)) href))
      else href)"

section \<open>Opening a preview\<close>

datatype ViewColumn = One | Two | Three

record TextEditor =
  document :: TextDocument
  viewColumn :: "ViewColumn option"

definition getViewColumn :: "TextEditor option \<Rightarrow> bool \<Rightarrow> ViewColumn option" where
  "getViewColumn active sideBySide =
     (case active of
        None \<Rightarrow> Some One
      | Some editor \<Rightarrow>
          if \<not> sideBySide then viewColumn editor
          else (case viewColumn editor of
                  Some One \<Rightarrow> Some Two
                | Some Two \<Rightarrow> Some Three
                | _ \<Rightarrow> viewColumn editor))"

text \<open>
  The effects of \<open>showPreview\<close>: the command it executes, if any, and the telemetry events
  it sends, each a name with its properties.
\<close>

datatype command = ShowSource | PreviewHtml Uri "ViewColumn option" jsstring

type_synonym telemetry_event = "jsstring \<times> (jsstring \<times> jsstring) list"

text \<open>
  \<open>showPreview\<close>. \<open>uriArg\<close> is \<open>Some\<close> when the argument is an instance of \<open>vscode.Uri\<close>,
  \<open>sideBySideArg\<close> is \<open>None\<close> when the second argument is left out, \<open>active\<close> is
  \<open>vscode.window.activeTextEditor\<close>, \<open>reporter\<close> says whether \<open>telemetryReporter\<close> is set, and
  \<open>basename_fsPath r\<close> is \<open>path.basename(r.fsPath)\<close>.
\<close>

definition showPreview ::
  "(Uri \<Rightarrow> jsstring) \<Rightarrow> (Uri \<Rightarrow> jsstring) \<Rightarrow> TextEditor option \<Rightarrow> bool
     \<Rightarrow> Uri option \<Rightarrow> bool option \<Rightarrow> command option \<times> telemetry_event list" where
  "showPreview toString basename_fsPath active reporter uriArg sideBySideArg =
     (let sideBySide = (case sideBySideArg of None \<Rightarrow> False | Some b \<Rightarrow> b);
          resource = (case uriArg of
                        Some u \<Rightarrow> Some u
                      | None \<Rightarrow> (case active of
                                   Some editor \<Rightarrow> Some (uri (document editor))
                                 | None \<Rightarrow> None))
      in case resource of
           None \<Rightarrow> (if active = None then (Some ShowSource, []) else (None, []))
         | Some r \<Rightarrow>
             (Some (PreviewHtml (getMarkdownUri toString r) (getViewColumn active sideBySide)
                      (str ''Preview '' @ [39] @ basename_fsPath r @ [39])),
              if reporter
              then [(str ''openPreview'',
                     [(str ''where'', if sideBySide then str ''sideBySide'' else str ''inPlace''),
                      (str ''how'', case uriArg of
                                      Some u \<Rightarrow> str ''action''
                                    | None \<Rightarrow> str ''pallete'')])]
              else []))"

section \<open>View-model decorations\<close>

text \<open>
  \<open>ViewModelDecoration\<close>: \<open>'r\<close> is the editor's \<open>Range\<close> and \<open>'d\<close> its \<open>IModelDecoration\<close>; the
  \<open>null\<close> range is \<open>None\<close>.
\<close>

record ('r, 'd) ViewModelDecoration =
  range_field :: "'r option"
  source :: 'd

definition new_ViewModelDecoration :: "'d \<Rightarrow> ('r, 'd) ViewModelDecoration" where
  "new_ViewModelDecoration src = \<lparr>range_field = None, source = src\<rparr>"

section \<open>A sample host\<close>

text \<open>
  Concrete stand-ins for the host's functions, on which the properties below are run at
  concrete inputs. URIs are serialised as modelled above.
\<close>

definition file_uri :: "jsstring \<Rightarrow> Uri" where
  "file_uri p = \<lparr>scheme = str ''file'', authority = [], path = p, query = [], fragment = []\<rparr>"

definition sample_toString :: "Uri \<Rightarrow> jsstring" where
  "sample_toString = Uri_toString"

text \<open>Paths in the manner of POSIX: absolute when they start with a slash.\<close>

definition sample_host :: "jsstring option \<Rightarrow> host" where
  "sample_host root =
     \<lparr>uri_parse_scheme = (\<lambda>s. if 58 \<in> set s then takeWhile (\<lambda>c. c \<noteq> 58) s else []),
      uri_file_toString = (\<lambda>p. str ''file://'' @ p),
      path_normalize = (\<lambda>p. p),
      path_resolve = (\<lambda>p. if take 1 p = [47] then p else str ''/cwd/'' @ p),
      path_join = (\<lambda>a b. a @ [47] @ b),
      path_dirname = (\<lambda>p. rev (drop 1 (dropWhile (\<lambda>c. c \<noteq> 47) (rev p)))),
      rootPath = root,
      fsPath = path\<rparr>"

section \<open>Properties of the debounce\<close>

lemma elapse_idle:
  "timers p = [] \<Longrightarrow> elapse d p = p\<lparr>clock := clock p + d\<rparr>"
  by (simp add: elapse_def)

lemma elapse_not_due:
  "timers p = [(t, u)] \<Longrightarrow> clock p + d < t \<Longrightarrow> elapse d p = p\<lparr>clock := clock p + d\<rparr>"
  by (simp add: elapse_def)

lemma elapse_due:
  "timers p = [(t, u)] \<Longrightarrow> t \<le> clock p + d \<Longrightarrow>
   elapse d p = p\<lparr>waiting := False, fired := fired p @ [u], timers := [], clock := clock p + d\<rparr>"
  by (simp add: elapse_def timeout_callback_def)

lemma update_waiting: "waiting p \<Longrightarrow> update u p = p"
  by (simp add: update_def)

lemma run_armed:
  "waiting p \<Longrightarrow> timers p = [(t, u)] \<Longrightarrow> clock p + duration evs < t \<Longrightarrow>
   run evs p = p\<lparr>clock := clock p + duration evs\<rparr>"
proof (induction evs arbitrary: p)
  case Nil
  then show ?case by (simp add: run_def)
next
  case (Cons e evs)
  show ?case
  proof (cases e)
    case (Update v)
    with Cons.prems have "step e p = p" by (simp add: update_waiting)
    with Cons Update show ?thesis by (simp add: run_def)
  next
    case (Elapse d)
    with Cons.prems have s: "step e p = p\<lparr>clock := clock p + d\<rparr>"
      by (simp add: elapse_not_due)
    have "run evs (p\<lparr>clock := clock p + d\<rparr>)
          = (p\<lparr>clock := clock p + d\<rparr>)\<lparr>clock := clock (p\<lparr>clock := clock p + d\<rparr>) + duration evs\<rparr>"
      using Cons.prems Elapse by (intro Cons.IH) simp_all
    with s Elapse show ?thesis by (simp add: run_def add.assoc)
  qed
qed

lemma consistent_update: "consistent p \<Longrightarrow> consistent (update u p)"
  by (auto simp: consistent_def update_def)

lemma consistent_elapse: "consistent p \<Longrightarrow> consistent (elapse d p)"
proof (cases "waiting p")
  case False
  assume "consistent p"
  with False show ?thesis by (simp add: consistent_def elapse_idle)
next
  case True
  assume "consistent p"
  with True obtain t u where t: "timers p = [(t, u)]" by (auto simp: consistent_def)
  show ?thesis
  proof (cases "t \<le> clock p + d")
    case True
    with t show ?thesis by (simp add: elapse_due consistent_def)
  next
    case False
    with t \<open>waiting p\<close> show ?thesis by (simp add: elapse_not_due consistent_def)
  qed
qed

lemma consistent_run: "consistent p \<Longrightarrow> consistent (run evs p)"
proof (induction evs arbitrary: p)
  case Nil
  then show ?case by (simp add: run_def)
next
  case (Cons e evs)
  have "consistent (step e p)"
    using Cons.prems by (cases e) (simp_all add: consistent_update consistent_elapse)
  then have "consistent (run evs (step e p))" by (rule Cons.IH)
  then show ?case by (simp add: run_def)
qed

lemma consistent_new: "consistent new_provider"
  by (simp add: consistent_def new_provider_def)

text \<open>
  C1. Starting with no refresh pending, a call \<open>update u\<close> followed by any further calls of
  \<open>update\<close> (with any URIs) spread over less than 300 time units fires nothing during the
  window, and once 300 units have passed since the first call exactly one change has been
  fired, carrying \<open>u\<close>, the URI of the first call; the provider is idle again.
\<close>

theorem update_window_fires_first_once:
  assumes "\<not> waiting p" and "timers p = []"
    and "duration evs < 300" and "300 \<le> duration evs + r"
  shows "fired (run evs (update u p)) = fired p
       \<and> fired (elapse r (run evs (update u p))) = fired p @ [u]
       \<and> \<not> waiting (elapse r (run evs (update u p)))
       \<and> timers (elapse r (run evs (update u p))) = []"
proof -
  let ?q = "update u p"
  have q: "waiting ?q" "timers ?q = [(clock p + 300, u)]" "clock ?q = clock p" "fired ?q = fired p"
    using assms(1,2) by (simp_all add: update_def)
  have r: "run evs ?q = ?q\<lparr>clock := clock ?q + duration evs\<rparr>"
    using q assms(3) by (intro run_armed[where t = "clock p + 300" and u = u]) simp_all
  let ?w = "run evs ?q"
  have w: "timers ?w = [(clock p + 300, u)]" "clock ?w = clock p + duration evs" "fired ?w = fired p"
    using q by (simp_all add: r)
  have "elapse r ?w = ?w\<lparr>waiting := False, fired := fired ?w @ [u], timers := [],
      clock := clock ?w + r\<rparr>"
    using w assms(4) by (intro elapse_due[where t = "clock p + 300"]) simp_all
  then have e: "fired (elapse r ?w) = fired ?w @ [u]" "\<not> waiting (elapse r ?w)"
      "timers (elapse r ?w) = []"
    by simp_all
  show ?thesis using w(3) e by simp
qed

theorem update_window_fires_first_once_witness:
  "\<not> waiting new_provider \<and> timers new_provider = []
   \<and> duration [Elapse 100, Update (file_uri (str ''/b.md'')), Elapse 199,
        Update (file_uri (str ''/a.md''))] < 300
   \<and> 300 \<le> duration [Elapse 100, Update (file_uri (str ''/b.md'')), Elapse 199,
        Update (file_uri (str ''/a.md''))] + 1
   \<and> fired (run [Elapse 100, Update (file_uri (str ''/b.md'')), Elapse 199,
        Update (file_uri (str ''/a.md''))] (update (file_uri (str ''/a.md'')) new_provider)) = []
   \<and> fired (elapse 1 (run [Elapse 100, Update (file_uri (str ''/b.md'')), Elapse 199,
        Update (file_uri (str ''/a.md''))] (update (file_uri (str ''/a.md'')) new_provider)))
       = [file_uri (str ''/a.md'')]"
  using update_window_fires_first_once [of new_provider
      "[Elapse 100, Update (file_uri (str ''/b.md'')), Elapse 199,
        Update (file_uri (str ''/a.md''))]" 1 "file_uri (str ''/a.md'')"]
  by (simp add: new_provider_def)

text \<open>
  C2. In every state the provider can reach from its construction by calls of \<open>update\<close>
  and the passing of time, at most one timer is pending, one is pending exactly when the
  waiting flag is set, and while the flag is set a call \<open>update u'\<close>, whatever \<open>u'\<close> is,
  returns the state as it was: the pending timer keeps its due time and its URI, and \<open>u'\<close>
  is recorded nowhere.
\<close>

theorem at_most_one_timer_in_flight:
  "length (timers (run evs new_provider)) \<le> 1
   \<and> (waiting (run evs new_provider) \<longleftrightarrow> timers (run evs new_provider) \<noteq> [])
   \<and> (waiting (run evs new_provider) \<longrightarrow>
        update u' (run evs new_provider) = run evs new_provider)"
proof -
  have "consistent (run evs new_provider)"
    by (rule consistent_run) (rule consistent_new)
  then show ?thesis
    by (cases "waiting (run evs new_provider)") (auto simp: consistent_def update_waiting)
qed

theorem at_most_one_timer_in_flight_witness:
  "waiting (run [Update (file_uri (str ''/a.md'')), Elapse 100] new_provider)
   \<and> file_uri (str ''/b.md'') \<noteq> file_uri (str ''/a.md'')
   \<and> update (file_uri (str ''/b.md''))
        (run [Update (file_uri (str ''/a.md'')), Elapse 100] new_provider)
      = run [Update (file_uri (str ''/a.md'')), Elapse 100] new_provider
   \<and> timers (run [Update (file_uri (str ''/a.md'')), Elapse 100] new_provider)
      = [(300, file_uri (str ''/a.md''))]"
  using at_most_one_timer_in_flight
    [of "[Update (file_uri (str ''/a.md'')), Elapse 100]" "file_uri (str ''/b.md'')"]
  by (simp add: run_def update_def elapse_def new_provider_def file_uri_def str_def)

section \<open>Properties of the string form of a URI\<close>

lemma unhex_hex: "d < 16 \<Longrightarrow> unhex (hex d) = Some d"
  by (auto simp: hex_def unhex_def)

lemma unreserved_not_percent: "unreserved b \<Longrightarrow> b \<noteq> 37"
  by (auto simp: unreserved_def)

lemma unpct_pct: "b < 256 \<Longrightarrow> unpct (pct b @ r) = b # unpct r"
proof (cases "unreserved b")
  case True
  then show ?thesis by (simp add: pct_def unreserved_not_percent)
next
  case False
  assume "b < 256"
  then have "b div 16 < 16" "b mod 16 < 16" by simp_all
  then have "unhex (hex (b div 16)) = Some (b div 16)" "unhex (hex (b mod 16)) = Some (b mod 16)"
    by (simp_all add: unhex_hex)
  with False show ?thesis by (simp add: pct_def)
qed

lemma unpct_bytes: "\<forall>b \<in> set bs. b < 256 \<Longrightarrow> unpct (concat (map pct bs)) = bs"
  by (induction bs) (simp_all add: unpct_pct)

lemma utf8_bytes: "c < 65536 \<Longrightarrow> \<forall>b \<in> set (utf8 c). b < 256"
proof -
  assume c: "c < 65536"
  have m: "c mod 64 < 64" "c div 64 mod 64 < 64" by simp_all
  from c have h: "c div 4096 < 16" by (simp add: div_less_iff_less_mult)
  have l: "c < 2048 \<Longrightarrow> c div 64 < 32" by (simp add: div_less_iff_less_mult)
  show ?thesis using m h l by (auto simp: utf8_def)
qed

lemma three_bytes: "4096 * (c div 4096) + c div 64 mod 64 * 64 + c mod 64 = (c::nat)"
proof -
  have "c mod (64 * 64) = 64 * (c div 64 mod 64) + c mod 64" by (rule mod_mult2_eq)
  then have "c mod 4096 = 64 * (c div 64 mod 64) + c mod 64" by simp
  moreover have "4096 * (c div 4096) + c mod 4096 = c" by simp
  ultimately show ?thesis by simp
qed

lemma utf8_decode_utf8: "c < 65536 \<Longrightarrow> utf8_decode (utf8 c @ r) = c # utf8_decode r"
proof -
  assume c: "c < 65536"
  consider "c < 128" | "128 \<le> c" "c < 2048" | "2048 \<le> c" by linarith
  then show ?thesis
  proof cases
    case 1
    then show ?thesis by (simp add: utf8_def)
  next
    case 2
    then have "c div 64 < 32" by (simp add: div_less_iff_less_mult)
    with 2 show ?thesis by (simp add: utf8_def)
  next
    case 3
    then have "\<not> c < 128" "\<not> c < 2048" by simp_all
    then show ?thesis by (simp add: utf8_def three_bytes)
  qed
qed

lemma utf8_decode_concat: "js_string s \<Longrightarrow> utf8_decode (concat (map utf8 s)) = s"
  by (induction s) (simp_all add: js_string_def utf8_decode_utf8)

lemma decode_encode: "js_string s \<Longrightarrow> decodeComponent (encodeComponent s) = s"
proof -
  assume s: "js_string s"
  then have "\<forall>b \<in> set (concat (map utf8 s)). b < 256"
    using utf8_bytes by (auto simp: js_string_def)
  then show ?thesis
    using s by (simp add: decodeComponent_def encodeComponent_def unpct_bytes utf8_decode_concat)
qed

lemma hex_no_delimiter: "hex d \<noteq> 58 \<and> hex d \<noteq> 47 \<and> hex d \<noteq> 63 \<and> hex d \<noteq> 35"
  by (cases "d < 10") (simp_all add: hex_def)

lemma unreserved_no_delimiter: "unreserved c \<Longrightarrow> c \<noteq> 58 \<and> c \<noteq> 47 \<and> c \<noteq> 63 \<and> c \<noteq> 35"
  unfolding unreserved_def by linarith

lemma pct_no_delimiter: "c \<in> set (pct b) \<Longrightarrow> c \<notin> {58, 47, 63, 35}"
proof (cases "unreserved b")
  case True
  assume "c \<in> set (pct b)"
  with True have "c = b" by (simp add: pct_def)
  with True show ?thesis using unreserved_no_delimiter by simp
next
  case False
  assume "c \<in> set (pct b)"
  with False have "c = 37 \<or> c = hex (b div 16) \<or> c = hex (b mod 16)" by (simp add: pct_def)
  then show ?thesis
    using hex_no_delimiter[of "b div 16"] hex_no_delimiter[of "b mod 16"] by auto
qed

lemma encodeComponent_no_delimiter: "c \<in> set (encodeComponent s) \<Longrightarrow> c \<notin> {58, 47, 63, 35}"
  using pct_no_delimiter by (auto simp: encodeComponent_def)

lemma encodePath_no_delimiter: "c \<in> set (encodePath p) \<Longrightarrow> c \<notin> {58, 63, 35}"
  using encodeComponent_no_delimiter by (fastforce simp: encodePath_def split: if_splits)


lemma Uri_parse_query:
  "query (Uri_parse s) =
     decodeComponent (if take 1 (rest_after_path s) = [63]
                      then takeWhile (\<lambda>c. c \<noteq> 35) (drop 1 (rest_after_path s)) else [])"
  by (simp add: Uri_parse_def rest_after_path_def Let_def)

lemma drop_to_query:
  fixes A Q :: jsstring
  assumes "\<forall>c \<in> set A. c \<noteq> 63 \<and> c \<noteq> 35" and "Q = [] \<or> hd Q = 63 \<or> hd Q = 35"
  shows "dropWhile (\<lambda>c. c \<notin> {63, 35}) (A @ Q) = Q"
proof -
  have "dropWhile (\<lambda>c. c \<notin> {63, 35}) (A @ Q) = dropWhile (\<lambda>c. c \<notin> {63, 35}) Q"
    using assms(1) by (intro dropWhile_append2) auto
  also have "\<dots> = Q" using assms(2) by (cases Q) auto
  finally show ?thesis .
qed

lemma drop_authority:
  fixes A Q :: jsstring
  assumes "\<forall>c \<in> set A. c \<noteq> 63 \<and> c \<noteq> 35" and "Q = [] \<or> hd Q = 63 \<or> hd Q = 35"
  shows "\<exists>A'. (\<forall>c \<in> set A'. c \<noteq> 63 \<and> c \<noteq> 35)
           \<and> dropWhile (\<lambda>c. c \<notin> {47, 63, 35}) (A @ Q) = A' @ Q"
  using assms
proof (induction A)
  case Nil
  then have "dropWhile (\<lambda>c. c \<notin> {47, 63, 35}) Q = Q" by (cases Q) auto
  then show ?case by (intro exI[of _ "[]"]) simp
next
  case (Cons a A)
  show ?case
  proof (cases "a \<notin> {47, 63, 35}")
    case True
    with Cons show ?thesis by simp
  next
    case False
    with Cons.prems show ?thesis by (intro exI[of _ "a # A"]) simp
  qed
qed

lemma two_slashes:
  fixes A Q :: jsstring
  assumes "take 2 (A @ Q) = [47, 47]" and "Q = [] \<or> hd Q = 63 \<or> hd Q = 35"
  shows "\<exists>A'. A = 47 # 47 # A'"
proof (cases A)
  case Nil
  with assms show ?thesis by (cases Q) auto
next
  case (Cons a B)
  show ?thesis
  proof (cases B)
    case Nil
    with Cons assms show ?thesis by (cases Q) auto
  next
    case (Cons b C)
    with \<open>A = a # B\<close> assms(1) show ?thesis by simp
  qed
qed

lemma rest_after_path_eq:
  fixes A Q :: jsstring
  assumes "sch \<noteq> []" and "\<forall>c \<in> set sch. c \<notin> {58, 47, 63, 35}"
    and "\<forall>c \<in> set A. c \<noteq> 63 \<and> c \<noteq> 35" and "Q = [] \<or> hd Q = 63 \<or> hd Q = 35"
  shows "rest_after_path (sch @ [58] @ A @ Q) = Q"
proof -
  define R where "R = A @ Q"
  have p: "takeWhile (\<lambda>c. c \<notin> {58, 47, 63, 35}) (sch @ [58] @ R) = sch"
    using assms(2) by (simp add: takeWhile_append2)
  have r1: "drop (length sch + 1) (sch @ [58] @ R) = R" by simp
  have t: "take 1 (drop (length sch) (sch @ [58] @ R)) = [58]" by simp
  have "dropWhile (\<lambda>c. c \<notin> {63, 35})
      (if take 2 R = [47, 47] then dropWhile (\<lambda>c. c \<notin> {47, 63, 35}) (drop 2 R) else R) = Q"
  proof (cases "take 2 R = [47, 47]")
    case False
    have "dropWhile (\<lambda>c. c \<notin> {63, 35}) R = Q"
      unfolding R_def using assms(3,4) by (rule drop_to_query)
    with False show ?thesis by (simp only: if_False)
  next
    case True
    with assms(4) obtain A' where A': "A = 47 # 47 # A'" using two_slashes R_def by blast
    with assms(3) have n: "\<forall>c \<in> set A'. c \<noteq> 63 \<and> c \<noteq> 35" by simp
    from n assms(4) obtain A'' where A'': "\<forall>c \<in> set A''. c \<noteq> 63 \<and> c \<noteq> 35"
        "dropWhile (\<lambda>c. c \<notin> {47, 63, 35}) (A' @ Q) = A'' @ Q"
      using drop_authority by blast
    from A' have "drop 2 R = A' @ Q" by (simp add: R_def)
    with True A''(2) have "(if take 2 R = [47, 47]
        then dropWhile (\<lambda>c. c \<notin> {47, 63, 35}) (drop 2 R) else R) = A'' @ Q"
      by simp
    then show ?thesis using drop_to_query[OF A''(1) assms(4)] by (simp only:)
  qed
  with assms(1) have "rest_after_path (sch @ [58] @ R) = Q"
    unfolding rest_after_path_def Let_def p by (simp only: t r1 if_True simp_thms)
  then show ?thesis by (simp add: R_def)
qed

lemma query_of_serialised:
  assumes "sch \<noteq> []" and "\<forall>c \<in> set sch. c \<notin> {58, 47, 63, 35}"
    and "\<forall>c \<in> set A. c \<noteq> 63 \<and> c \<noteq> 35" and "js_string q"
  shows "query (Uri_parse (sch @ [58] @ A
           @ (if q \<noteq> [] then [63] @ encodeComponent q else [])
           @ (if f \<noteq> [] then [35] @ encodeComponent f else []))) = q"
proof -
  define F where "F = (if f \<noteq> [] then [35] @ encodeComponent f else [])"
  define Q where "Q = (if q \<noteq> [] then [63] @ encodeComponent q else []) @ F"
  have F: "F = [] \<or> hd F = 35" by (simp add: F_def)
  then have "Q = [] \<or> hd Q = 63 \<or> hd Q = 35" by (auto simp: Q_def)
  with assms(1-3) have r: "rest_after_path (sch @ [58] @ A @ Q) = Q" by (rule rest_after_path_eq)
  have "query (Uri_parse (sch @ [58] @ A @ Q)) = q"
  proof (cases "q = []")
    case True
    with F have "take 1 Q \<noteq> [63]" by (cases F) (auto simp: Q_def)
    with True show ?thesis
      unfolding Uri_parse_query r by (simp add: decodeComponent_def)
  next
    case False
    have "\<forall>c \<in> set (encodeComponent q). c \<noteq> 35" using encodeComponent_no_delimiter by blast
    moreover have "takeWhile (\<lambda>c. c \<noteq> 35) F = []" using F by (cases F) auto
    ultimately have "takeWhile (\<lambda>c. c \<noteq> 35) (encodeComponent q @ F) = encodeComponent q"
      by (simp add: takeWhile_append2)
    with False have "take 1 Q = [63]"
        "takeWhile (\<lambda>c. c \<noteq> 35) (drop 1 Q) = encodeComponent q"
      by (simp_all add: Q_def)
    with assms(4) show ?thesis
      unfolding Uri_parse_query r by (simp add: decode_encode)
  qed
  then show ?thesis by (simp add: Q_def F_def)
qed

lemma js_string_append: "js_string (a @ b) \<longleftrightarrow> js_string a \<and> js_string b"
  by (auto simp: js_string_def)

lemma pct_js: "b < 256 \<Longrightarrow> js_string (pct b)"
proof -
  assume "b < 256"
  have "hex d < 65536" if "d < 16" for d using that by (simp add: hex_def)
  moreover from \<open>b < 256\<close> have "b div 16 < 16" "b mod 16 < 16" by simp_all
  ultimately show ?thesis using \<open>b < 256\<close> by (simp add: pct_def js_string_def)
qed

lemma encodeComponent_js: "js_string s \<Longrightarrow> js_string (encodeComponent s)"
proof (induction s)
  case Nil
  show ?case by (simp add: encodeComponent_def js_string_def)
next
  case (Cons c s)
  then have c: "c < 65536" and s: "js_string (encodeComponent s)" by (simp_all add: js_string_def)
  have "js_string (concat (map pct bs))" if "\<forall>b \<in> set bs. b < 256" for bs
    using that by (induction bs) (simp_all add: js_string_append pct_js, simp add: js_string_def)
  with c have "js_string (concat (map pct (utf8 c)))" using utf8_bytes by blast
  with s show ?case by (simp add: encodeComponent_def js_string_append)
qed

lemma encodePath_js: "js_string p \<Longrightarrow> js_string (encodePath p)"
proof (induction p)
  case Nil
  show ?case by (simp add: encodePath_def js_string_def)
next
  case (Cons c p)
  then have "js_string [c]" "js_string (encodePath p)" by (simp_all add: js_string_def)
  moreover have "js_string [47]" by (simp add: js_string_def)
  ultimately show ?case
    using encodeComponent_js[of "[c]"] by (simp add: encodePath_def js_string_append)
qed

lemma Uri_toString_js: "js_uri u \<Longrightarrow> js_string (Uri_toString u)"
proof -
  assume u: "js_uri u"
  have c: "js_string [58]" "js_string [47, 47]" "js_string [63]" "js_string [35]" "js_string []"
    by (simp_all add: js_string_def)
  from u have e: "js_string (scheme u)" "js_string (encodeComponent (authority u))"
      "js_string (encodePath (path u))" "js_string (encodeComponent (query u))"
      "js_string (encodeComponent (fragment u))"
    by (simp_all add: js_uri_def encodeComponent_js encodePath_js)
  have "js_string (if scheme u \<noteq> [] then scheme u @ [58] else [])"
    "js_string (if authority u \<noteq> [] \<or> scheme u = str ''file'' then [47, 47] else [])"
    "js_string (if query u \<noteq> [] then [63] @ encodeComponent (query u) else [])"
    "js_string (if fragment u \<noteq> [] then [35] @ encodeComponent (fragment u) else [])"
    using c e by (simp_all add: js_string_append del: append.simps)
  with e show ?thesis
    unfolding Uri_toString_def by (simp only: js_string_append simp_thms)
qed

lemma serialised_preview_query:
  assumes "js_uri u"
  shows "query (Uri_parse (Uri_toString (getMarkdownUri Uri_toString u))) = Uri_toString u"
proof -
  let ?A = "(if authority u \<noteq> [] then [47, 47] else [])
     @ encodeComponent (authority u) @ encodePath (path u @ str ''.rendered'')"
  have m: "str ''markdown'' \<noteq> []" "\<forall>c \<in> set (str ''markdown''). c \<notin> {58, 47, 63, 35}"
    "str ''markdown'' \<noteq> str ''file''"
    by (simp_all add: str_def)
  have A: "\<forall>c \<in> set ?A. c \<noteq> 63 \<and> c \<noteq> 35"
    using encodeComponent_no_delimiter[of _ "authority u"]
      encodePath_no_delimiter[of _ "path u @ str ''.rendered''"]
    by auto
  have q: "js_string (Uri_toString u)" using assms by (rule Uri_toString_js)
  define v where "v = getMarkdownUri Uri_toString u"
  have v: "scheme v = str ''markdown''" "authority v = authority u"
    "path v = path u @ str ''.rendered''" "query v = Uri_toString u" "fragment v = fragment u"
    by (simp_all add: v_def getMarkdownUri_def)
  have "Uri_toString v
      = str ''markdown'' @ [58] @ ?A
        @ (if Uri_toString u \<noteq> [] then [63] @ encodeComponent (Uri_toString u) else [])
        @ (if fragment u \<noteq> [] then [35] @ encodeComponent (fragment u) else [])"
    using m by (simp add: Uri_toString_def[of v] v)
  then show ?thesis using query_of_serialised[OF m(1,2) A q] by (simp add: v_def)
qed


lemma takeWhile_stop:
  assumes "\<forall>c \<in> set xs. P c" and "ys = [] \<or> \<not> P (hd ys)"
  shows "takeWhile P (xs @ ys) = xs" and "dropWhile P (xs @ ys) = ys"
proof -
  from assms(2) have "takeWhile P ys = []" "dropWhile P ys = ys" by (cases ys; simp)+
  with assms(1) show "takeWhile P (xs @ ys) = xs" "dropWhile P (xs @ ys) = ys"
    by (simp_all add: takeWhile_append2 dropWhile_append2)
qed

lemma parse_shape:
  fixes sch S2 EA EP Q Qq F :: jsstring
  assumes sch: "sch \<noteq> []" "\<forall>c \<in> set sch. c \<notin> {58, 47, 63, 35}"
    and au: "S2 = [47, 47] \<and> (\<forall>c \<in> set EA. c \<notin> {47, 63, 35})
             \<and> (EP @ Q = [] \<or> hd (EP @ Q) \<in> {47, 63, 35})
           \<or> S2 = [] \<and> EA = [] \<and> take 2 (EP @ Q) \<noteq> [47, 47]"
    and pa: "\<forall>c \<in> set EP. c \<notin> {63, 35}"
    and qu: "Q = Qq @ F" "Qq = [] \<or> hd Qq = 63 \<and> (\<forall>c \<in> set (tl Qq). c \<noteq> 35)"
    and fr: "F = [] \<or> hd F = 35"
  shows "Uri_parse (sch @ [58] @ S2 @ EA @ EP @ Q)
         = \<lparr>scheme = sch, authority = decodeComponent EA, path = decodeComponent EP,
            query = decodeComponent (tl Qq), fragment = decodeComponent (tl F)\<rparr>"
proof -
  define R1 where "R1 = S2 @ EA @ EP @ Q"
  define R2 where "R2 = EP @ Q"
  define s where "s = sch @ [58] @ R1"
  have p: "takeWhile (\<lambda>c. c \<notin> {58, 47, 63, 35}) s = sch"
    unfolding s_def using sch(2) by (intro takeWhile_stop(1)) simp_all
  have t: "take 1 (drop (length sch) s) = [58]" and r1: "drop (length sch + 1) s = R1"
    by (simp_all add: s_def)
  have Q: "Q = [] \<or> hd Q = 63 \<or> hd Q = 35"
    using qu fr by (cases Qq) auto
  have a: "(if take 2 R1 = [47, 47]
            then takeWhile (\<lambda>c. c \<notin> {47, 63, 35}) (drop 2 R1) else []) = EA"
    and r2: "(if take 2 R1 = [47, 47]
            then dropWhile (\<lambda>c. c \<notin> {47, 63, 35}) (drop 2 R1) else R1) = R2"
  proof -
    from au show "(if take 2 R1 = [47, 47]
            then takeWhile (\<lambda>c. c \<notin> {47, 63, 35}) (drop 2 R1) else []) = EA"
    proof
      assume h: "S2 = [47, 47] \<and> (\<forall>c \<in> set EA. c \<notin> {47, 63, 35})
             \<and> (EP @ Q = [] \<or> hd (EP @ Q) \<in> {47, 63, 35})"
      then have "takeWhile (\<lambda>c. c \<notin> {47, 63, 35}) (EA @ (EP @ Q)) = EA"
        by (intro takeWhile_stop(1)) auto
      with h show ?thesis by (simp add: R1_def)
    next
      assume "S2 = [] \<and> EA = [] \<and> take 2 (EP @ Q) \<noteq> [47, 47]"
      then show ?thesis by (simp add: R1_def)
    qed
    from au show "(if take 2 R1 = [47, 47]
            then dropWhile (\<lambda>c. c \<notin> {47, 63, 35}) (drop 2 R1) else R1) = R2"
    proof
      assume h: "S2 = [47, 47] \<and> (\<forall>c \<in> set EA. c \<notin> {47, 63, 35})
             \<and> (EP @ Q = [] \<or> hd (EP @ Q) \<in> {47, 63, 35})"
      then have "dropWhile (\<lambda>c. c \<notin> {47, 63, 35}) (EA @ (EP @ Q)) = EP @ Q"
        by (intro takeWhile_stop(2)) auto
      with h show ?thesis by (simp add: R1_def R2_def)
    next
      assume "S2 = [] \<and> EA = [] \<and> take 2 (EP @ Q) \<noteq> [47, 47]"
      then show ?thesis by (simp add: R1_def R2_def)
    qed
  qed
  have Q': "Q = [] \<or> \<not> hd Q \<notin> {63, 35}" using Q by auto
  have pth: "takeWhile (\<lambda>c. c \<notin> {63, 35}) R2 = EP"
    unfolding R2_def using pa Q' by (rule takeWhile_stop(1))
  have r3: "dropWhile (\<lambda>c. c \<notin> {63, 35}) R2 = Q"
    unfolding R2_def using pa Q' by (rule takeWhile_stop(2))
  have F35: "takeWhile (\<lambda>c. c \<noteq> 35) F = []" "dropWhile (\<lambda>c. c \<noteq> 35) F = F"
    using fr by (cases F; simp)+
  have q: "(if take 1 Q = [63] then takeWhile (\<lambda>c. c \<noteq> 35) (drop 1 Q) else []) = tl Qq"
    and r4: "(if take 1 Q = [63] then dropWhile (\<lambda>c. c \<noteq> 35) (drop 1 Q) else Q) = F"
  proof -
    show "(if take 1 Q = [63] then takeWhile (\<lambda>c. c \<noteq> 35) (drop 1 Q) else []) = tl Qq"
    proof (cases Qq)
      case Nil
      with qu(1) fr show ?thesis by (cases F) auto
    next
      case (Cons x xs)
      with qu(2) have "x = 63" "\<forall>c \<in> set xs. c \<noteq> 35" by simp_all
      with Cons qu(1) F35 show ?thesis by (simp add: takeWhile_append2)
    qed
    show "(if take 1 Q = [63] then dropWhile (\<lambda>c. c \<noteq> 35) (drop 1 Q) else Q) = F"
    proof (cases Qq)
      case Nil
      with qu(1) fr show ?thesis by (cases F) auto
    next
      case (Cons x xs)
      with qu(2) have "x = 63" "\<forall>c \<in> set xs. c \<noteq> 35" by simp_all
      with Cons qu(1) F35 show ?thesis by (simp add: dropWhile_append2)
    qed
  qed
  have f: "(if take 1 F = [35] then drop 1 F else []) = tl F"
    using fr by (cases F) auto
  have "Uri_parse s = \<lparr>scheme = sch, authority = decodeComponent EA, path = decodeComponent EP,
            query = decodeComponent (tl Qq), fragment = decodeComponent (tl F)\<rparr>"
    unfolding Uri_parse_def Let_def p
    by (simp only: t r1 sch(1) simp_thms if_True a r2 pth r3 q r4 f)
  then show ?thesis by (simp add: s_def R1_def)
qed


lemma unpct_pcts: "\<forall>b \<in> set bs. b < 256 \<Longrightarrow> unpct (concat (map pct bs) @ r) = bs @ unpct r"
  by (induction bs) (simp_all add: unpct_pct)

lemma unpct_encodePath: "js_string p \<Longrightarrow> unpct (encodePath p) = concat (map utf8 p)"
proof (induction p)
  case Nil
  show ?case by (simp add: encodePath_def)
next
  case (Cons c p)
  then have c: "c < 65536" and IH: "unpct (encodePath p) = concat (map utf8 p)"
    by (simp_all add: js_string_def)
  have e: "encodePath (c # p) = (if c = 47 then [47] else concat (map pct (utf8 c))) @ encodePath p"
    by (simp add: encodePath_def encodeComponent_def)
  show ?case
  proof (cases "c = 47")
    case True
    have "utf8 47 = [47]" by (simp add: utf8_def)
    moreover from e True have "encodePath (47 # p) = 47 # encodePath p" by simp
    ultimately show ?thesis using True IH by simp
  next
    case False
    with c IH show ?thesis using utf8_bytes[of c] by (simp add: e unpct_pcts)
  qed
qed

lemma decode_encodePath: "js_string p \<Longrightarrow> decodeComponent (encodePath p) = p"
  by (simp add: decodeComponent_def unpct_encodePath utf8_decode_concat)

lemma decodeComponent_Nil: "decodeComponent [] = []"
  by (simp add: decodeComponent_def)

lemma utf8_not_empty: "utf8 c \<noteq> []"
  by (simp add: utf8_def)

lemma pct_not_empty: "pct b \<noteq> []"
  by (simp add: pct_def)

lemma encodeComponent_Cons: "\<exists>x xs. encodeComponent (c # s) = x # xs \<and> x \<noteq> 47"
proof -
  obtain b bs where b: "utf8 c = b # bs" using utf8_not_empty by (cases "utf8 c") auto
  obtain x xs where x: "pct b = x # xs" using pct_not_empty by (cases "pct b") auto
  then have "x \<in> set (pct b)" by simp
  then have "x \<noteq> 47" using pct_no_delimiter by blast
  moreover have "encodeComponent (c # s) = x # (xs @ concat (map pct bs) @ encodeComponent s)"
    by (simp add: encodeComponent_def b x)
  ultimately show ?thesis by blast
qed

lemma encodePath_Cons:
  "encodePath (c # p) = (if c = 47 then [47] else encodeComponent [c]) @ encodePath p"
  by (simp add: encodePath_def)

lemma encodePath_head:
  "c \<noteq> 47 \<Longrightarrow> \<exists>x xs. encodePath (c # p) = x # xs \<and> x \<noteq> 47"
  using encodeComponent_Cons[of c "[]"] by (auto simp: encodePath_Cons)

lemma encodePath_no_two_slashes:
  fixes Q :: jsstring
  assumes "take 2 p \<noteq> [47, 47]" and "Q = [] \<or> hd Q = 63 \<or> hd Q = 35"
  shows "take 2 (encodePath p @ Q) \<noteq> [47, 47]"
proof (cases p)
  case Nil
  with assms(2) show ?thesis by (cases Q) (auto simp: encodePath_def)
next
  case (Cons c p')
  show ?thesis
  proof (cases "c = 47")
    case False
    then obtain x xs where "encodePath (c # p') = x # xs" "x \<noteq> 47"
      using encodePath_head by blast
    with Cons show ?thesis by simp
  next
    case True
    show ?thesis
    proof (cases p')
      case Nil
      with True Cons assms(2) show ?thesis by (cases Q) (auto simp: encodePath_def)
    next
      case (Cons d p'')
      with True \<open>p = c # p'\<close> assms(1) have "d \<noteq> 47" by simp
      then obtain x xs where "encodePath (d # p'') = x # xs" "x \<noteq> 47"
        using encodePath_head by blast
      with True Cons \<open>p = c # p'\<close> have "encodePath p = 47 # x # xs" "x \<noteq> 47"
        by (simp_all add: encodePath_Cons[of 47])
      then show ?thesis by simp
    qed
  qed
qed

lemma Uri_parse_toString:
  assumes "js_uri u" and "wf_uri u"
  shows "Uri_parse (Uri_toString u) = u"
proof -
  define S2 :: jsstring where
    "S2 = (if authority u \<noteq> [] \<or> scheme u = str ''file'' then [47, 47] else [])"
  define EA where "EA = encodeComponent (authority u)"
  define EP where "EP = encodePath (path u)"
  define Qq where "Qq = (if query u \<noteq> [] then [63] @ encodeComponent (query u) else [])"
  define F where "F = (if fragment u \<noteq> [] then [35] @ encodeComponent (fragment u) else [])"
  have sch: "scheme u \<noteq> []" "\<forall>c \<in> set (scheme u). c \<notin> {58, 47, 63, 35}"
    using assms(2) by (simp_all add: wf_uri_def)
  have fr: "F = [] \<or> hd F = 35" by (simp add: F_def)
  have qu: "Qq = [] \<or> hd Qq = 63 \<and> (\<forall>c \<in> set (tl Qq). c \<noteq> 35)"
    using encodeComponent_no_delimiter[of _ "query u"] by (auto simp: Qq_def)
  have Q: "Qq @ F = [] \<or> hd (Qq @ F) = 63 \<or> hd (Qq @ F) = 35"
    using fr by (auto simp: Qq_def)
  have pa: "\<forall>c \<in> set EP. c \<notin> {63, 35}"
    using encodePath_no_delimiter[of _ "path u"] by (auto simp: EP_def)
  have au: "S2 = [47, 47] \<and> (\<forall>c \<in> set EA. c \<notin> {47, 63, 35})
             \<and> (EP @ (Qq @ F) = [] \<or> hd (EP @ (Qq @ F)) \<in> {47, 63, 35})
           \<or> S2 = [] \<and> EA = [] \<and> take 2 (EP @ (Qq @ F)) \<noteq> [47, 47]"
  proof (cases "authority u \<noteq> [] \<or> scheme u = str ''file''")
    case True
    with assms(2) have "path u = [] \<or> take 1 (path u) = [47]" by (simp add: wf_uri_def)
    then have "EP = [] \<or> hd EP = 47"
      by (cases "path u") (auto simp: EP_def encodePath_def)
    then have "EP @ (Qq @ F) = [] \<or> hd (EP @ (Qq @ F)) \<in> {47, 63, 35}"
      using Q by (cases EP) auto
    moreover have "\<forall>c \<in> set EA. c \<notin> {47, 63, 35}"
      using encodeComponent_no_delimiter[of _ "authority u"] by (auto simp: EA_def)
    ultimately show ?thesis using True by (simp add: S2_def)
  next
    case False
    with assms(2) have "take 2 (path u) \<noteq> [47, 47]" by (simp add: wf_uri_def)
    then have "take 2 (EP @ (Qq @ F)) \<noteq> [47, 47]"
      unfolding EP_def using Q by (rule encodePath_no_two_slashes)
    with False show ?thesis by (simp add: S2_def EA_def encodeComponent_def)
  qed
  have "Uri_parse (scheme u @ [58] @ S2 @ EA @ EP @ (Qq @ F))
         = \<lparr>scheme = scheme u, authority = decodeComponent EA, path = decodeComponent EP,
            query = decodeComponent (tl Qq), fragment = decodeComponent (tl F)\<rparr>"
    using sch au pa refl qu fr by (rule parse_shape)
  moreover have "Uri_toString u = scheme u @ [58] @ S2 @ EA @ EP @ (Qq @ F)"
    using sch(1) by (simp add: Uri_toString_def S2_def EA_def EP_def Qq_def F_def)
  moreover have "decodeComponent EA = authority u" "decodeComponent EP = path u"
    "decodeComponent (tl Qq) = query u" "decodeComponent (tl F) = fragment u"
    using assms(1)
    by (simp_all add: js_uri_def EA_def EP_def Qq_def F_def decode_encode decode_encodePath
        decodeComponent_Nil)
  ultimately show ?thesis by simp
qed

text \<open>
  C3. A preview URI that is serialised and parsed again carries in its query the
  serialisation of the document URI it was derived from; and when the document URI is
  well formed, \<open>showSource\<close>, which parses that query, arrives at the document URI itself.
\<close>

theorem preview_uri_query_round_trip:
  assumes "js_uri u"
  shows "query (Uri_parse (Uri_toString (getMarkdownUri Uri_toString u))) = Uri_toString u
       \<and> (wf_uri u \<longrightarrow>
            showSource_docUri Uri_parse (Uri_parse (Uri_toString (getMarkdownUri Uri_toString u)))
              = u)"
  using assms serialised_preview_query[OF assms] Uri_parse_toString[OF assms]
  by (simp add: showSource_docUri_def)

theorem preview_uri_query_round_trip_witness:
  "js_uri (file_uri (str ''/a?b.md'')) \<and> wf_uri (file_uri (str ''/a?b.md''))
   \<and> Uri_toString (getMarkdownUri Uri_toString (file_uri (str ''/a?b.md'')))
      = str ''markdown:/a%3Fb.md.rendered?file%3A%2F%2F%2Fa%253Fb.md''
   \<and> query (Uri_parse (str ''markdown:/a%3Fb.md.rendered?file%3A%2F%2F%2Fa%253Fb.md''))
      = str ''file:///a%3Fb.md''
   \<and> showSource_docUri Uri_parse
        (Uri_parse (str ''markdown:/a%3Fb.md.rendered?file%3A%2F%2F%2Fa%253Fb.md''))
      = file_uri (str ''/a?b.md'')"
proof -
  have j: "js_uri (file_uri (str ''/a?b.md''))"
    by (simp add: js_uri_def js_string_def file_uri_def str_def)
  have w: "wf_uri (file_uri (str ''/a?b.md''))"
    by (simp add: wf_uri_def file_uri_def str_def)
  have t: "Uri_toString (file_uri (str ''/a?b.md'')) = str ''file:///a%3Fb.md''"
    by (simp add: Uri_toString_def file_uri_def str_def encodeComponent_def
        encodePath_def utf8_def pct_def unreserved_def hex_def)
  have d: "Uri_toString (getMarkdownUri Uri_toString (file_uri (str ''/a?b.md'')))
      = str ''markdown:/a%3Fb.md.rendered?file%3A%2F%2F%2Fa%253Fb.md''"
    by (simp add: Uri_toString_def getMarkdownUri_def file_uri_def str_def encodeComponent_def
        encodePath_def utf8_def pct_def unreserved_def hex_def)
  from preview_uri_query_round_trip [OF j] w j d t show ?thesis by simp
qed

section \<open>Properties of the decorations and of the listeners\<close>

text \<open>
  C9. Constructing a \<open>ViewModelDecoration\<close> from a model decoration \<open>d\<close> stores \<open>d\<close> as its
  source and leaves the range unset.
\<close>

theorem new_ViewModelDecoration_fields:
  "source (new_ViewModelDecoration d) = d \<and> range_field (new_ViewModelDecoration d) = None"
  by (simp add: new_ViewModelDecoration_def)

text \<open>
  C10. A document whose URI has the scheme \<open>markdown\<close> is no Markdown file for the
  extension, whatever its language is, and the listeners on saved and on changed documents
  leave the provider as it is: they do not call \<open>update\<close>.
\<close>

theorem preview_document_never_updates:
  assumes "scheme (uri doc) = str ''markdown''"
  shows "\<not> isMarkdownFile doc
       \<and> onDidSaveTextDocument toString doc p = p
       \<and> onDidChangeTextDocument toString doc p = p"
  using assms by (simp add: isMarkdownFile_def onDidSaveTextDocument_def onDidChangeTextDocument_def)

theorem preview_document_never_updates_witness:
  "scheme (uri \<lparr>languageId = str ''markdown'',
                uri = getMarkdownUri sample_toString (file_uri (str ''/a.md''))\<rparr>) = str ''markdown''
   \<and> \<not> isMarkdownFile \<lparr>languageId = str ''markdown'',
                uri = getMarkdownUri sample_toString (file_uri (str ''/a.md''))\<rparr>
   \<and> onDidSaveTextDocument sample_toString \<lparr>languageId = str ''markdown'',
                uri = getMarkdownUri sample_toString (file_uri (str ''/a.md''))\<rparr> new_provider
      = new_provider
   \<and> onDidChangeTextDocument sample_toString \<lparr>languageId = str ''markdown'',
                uri = getMarkdownUri sample_toString (file_uri (str ''/a.md''))\<rparr> new_provider
      = new_provider"
  using preview_document_never_updates [of "\<lparr>languageId = str ''markdown'',
                uri = getMarkdownUri sample_toString (file_uri (str ''/a.md''))\<rparr>"
      sample_toString new_provider]
  by (simp add: getMarkdownUri_def)

section \<open>Properties of the front-matter pattern\<close>

lemma unit_step_shorter: "unit_step s = Some t \<Longrightarrow> length t < length s"
  by (auto simp: unit_step_def split: list.splits if_splits)

declare first_closing.simps [simp del] body_clear.simps [simp del] ms.simps [simp del]
  search.simps [simp del]

lemma ms_Seq: "ms n (Seq r1 r2) s = concat (map (ms n r2) (ms n r1 s))"
  by (simp add: ms.simps)

lemma ms_newline: "ms n newline s = (case strip_newline s of None \<Rightarrow> [] | Some t \<Rightarrow> [t])"
  by (auto simp: newline_def strip_newline_def ms.simps split: list.splits)

lemma ms_dashes:
  "ms n (Seq dashes r) s = (case strip_dashes s of None \<Rightarrow> [] | Some t \<Rightarrow> ms n r t)"
  by (auto simp: dashes_def strip_dashes_def numeral_3_eq_3 ms.simps split: list.splits)

lemma ms_blanks_Nil: "ms n blanks [] = [[]]"
  by (simp add: blanks_def ms.simps)

lemma ms_blanks_Cons:
  "ms n blanks (x # xs) = (if blank x then ms n blanks xs @ [x # xs] else [x # xs])"
  by (simp add: blanks_def blank_def ms.simps(4) ms.simps(8)[of n "Cls [32, 9]" "x # xs"])

lemma newline_not_blank: "blank x \<Longrightarrow> strip_newline (x # xs) = None"
  by (auto simp: strip_newline_def blank_def)

lemma ms_blanks_newline:
  "ms n (Seq blanks (Seq newline r)) s = ms n (Seq newline r) (dropWhile blank s)"
proof (induction s)
  case Nil
  show ?case by (simp add: ms_Seq[of n blanks] ms_blanks_Nil)
next
  case (Cons x xs)
  show ?case
  proof (cases "blank x")
    case True
    then have "ms n (Seq newline r) (x # xs) = []"
      by (simp add: ms_Seq[of n newline] ms_newline newline_not_blank)
    with True Cons show ?thesis
      by (simp add: ms_Seq[of n blanks] ms_blanks_Cons)
  next
    case False
    then show ?thesis by (simp add: ms_Seq[of n blanks] ms_blanks_Cons)
  qed
qed

lemma concat_ms_Eps: "concat (map (ms n Eps) xs) = xs"
  by (induction xs) (simp_all add: ms.simps(1))

lemma ms_Seq_Eps: "ms n (Seq r Eps) = ms n r"
  by (rule ext) (simp add: ms_Seq concat_ms_Eps)

lemma ms_newline_then:
  "ms n (Seq newline r) s = (case strip_newline s of None \<Rightarrow> [] | Some t \<Rightarrow> ms n r t)"
  by (simp add: ms_Seq[of n newline] ms_newline split: option.splits)

lemma ms_delimiter_line:
  "ms n (Seq dashes (Seq blanks newline)) s
   = (case delimiter_line s of None \<Rightarrow> [] | Some t \<Rightarrow> [t])"
proof -
  have "ms n (Seq blanks newline) t = ms n newline (dropWhile blank t)" for t
  proof -
    have "ms n (Seq blanks newline) t = concat (map (ms n (Seq newline Eps)) (ms n blanks t))"
      by (simp add: ms_Seq[of n blanks] ms_Seq_Eps)
    also have "\<dots> = ms n (Seq blanks (Seq newline Eps)) t"
      by (simp add: ms_Seq[of n blanks])
    also have "\<dots> = ms n newline (dropWhile blank t)"
      by (simp add: ms_blanks_newline ms_Seq_Eps)
    finally show ?thesis .
  qed
  then show ?thesis
    by (simp add: ms_dashes ms_newline delimiter_line_def split: option.splits)
qed

lemma ms_closing:
  "ms n (Seq newline (Seq dashes (Seq blanks newline))) s
   = (case closing s of None \<Rightarrow> [] | Some t \<Rightarrow> [t])"
  by (simp add: ms_newline_then ms_delimiter_line closing_def split: option.splits)

lemma ms_unit:
  "ms n (Alt Dot newline) s = (case unit_step s of None \<Rightarrow> [] | Some t \<Rightarrow> [t])"
  by (auto simp: newline_def unit_step_def isLineTerminator_def ms.simps split: list.splits)

lemma ms_body:
  "ms n (LazyStar (Alt Dot newline)) s
   = s # (case unit_step s of None \<Rightarrow> [] | Some t \<Rightarrow> ms n (LazyStar (Alt Dot newline)) t)"
  by (subst ms.simps(9)) (simp add: ms_unit unit_step_shorter split: option.splits)

lemma closings_unfold:
  "closings n s =
     (case closing s of None \<Rightarrow> [] | Some t \<Rightarrow> [t])
     @ (case unit_step s of None \<Rightarrow> [] | Some t \<Rightarrow> closings n t)"
proof -
  have "closings n s = concat (map (ms n (Seq newline (Seq dashes (Seq blanks newline))))
      (s # (case unit_step s of None \<Rightarrow> [] | Some t \<Rightarrow> ms n (LazyStar (Alt Dot newline)) t)))"
    unfolding closings_def by (subst ms_Seq, subst ms_body) (rule refl)
  also have "\<dots> = (case closing s of None \<Rightarrow> [] | Some t \<Rightarrow> [t])
     @ (case unit_step s of None \<Rightarrow> [] | Some t \<Rightarrow> closings n t)"
    by (simp add: ms_closing closings_def ms_Seq[of n "LazyStar (Alt Dot newline)"] split: option.splits)
  finally show ?thesis .
qed

lemma closings_first:
  "(case closings n s of [] \<Rightarrow> None | r # _ \<Rightarrow> Some r) = first_closing s"
proof (induction s rule: first_closing.induct)
  case (1 s)
  show ?case
  proof (cases "closing s")
    case (Some r)
    then show ?thesis by (subst closings_unfold, subst first_closing.simps) simp
  next
    case None
    show ?thesis
    proof (cases "unit_step s")
      case n: None
      with None show ?thesis by (subst closings_unfold, subst first_closing.simps) simp
    next
      case (Some t)
      with None 1 have "(case closings n t of [] \<Rightarrow> None | r # _ \<Rightarrow> Some r) = first_closing t"
        by simp
      with None Some show ?thesis by (subst closings_unfold, subst first_closing.simps) simp
    qed
  qed
qed

lemma ms_frontMatter:
  "ms n frontMatter s =
     (if length s = n
      then (case delimiter_line s of None \<Rightarrow> [] | Some t \<Rightarrow> closings n t)
      else [])"
proof -
  let ?rest = "Seq (LazyStar (Alt Dot newline)) (Seq newline (Seq dashes (Seq blanks newline)))"
  have "ms n frontMatter s =
      (if length s = n then ms n (Seq dashes (Seq blanks (Seq newline ?rest))) s else [])"
    unfolding frontMatter_def by (simp add: ms_Seq[of n Bol] ms.simps(5))
  also have "ms n (Seq dashes (Seq blanks (Seq newline ?rest))) s
      = (case delimiter_line s of None \<Rightarrow> [] | Some t \<Rightarrow> closings n t)"
    by (simp add: ms_dashes ms_blanks_newline ms_newline_then delimiter_line_def closings_def
        split: option.splits)
  finally show ?thesis .
qed

lemma search_later: "length s < n \<Longrightarrow> search n frontMatter pre s = None"
proof (induction s arbitrary: pre)
  case Nil
  then show ?case by (subst search.simps) (simp add: ms_frontMatter)
next
  case (Cons x xs)
  then have "search n frontMatter (pre @ [x]) xs = None" by simp
  with Cons.prems show ?case by (subst search.simps) (simp add: ms_frontMatter)
qed

lemma search_frontMatter:
  "search (length text) frontMatter [] text =
      (case delimiter_line text of None \<Rightarrow> None
       | Some t \<Rightarrow> (case first_closing t of None \<Rightarrow> None | Some r \<Rightarrow> Some ([], r)))"
proof -
  have f: "first_closing t = (case closings (length text) t of [] \<Rightarrow> None | r # _ \<Rightarrow> Some r)" for t
    by (rule closings_first[symmetric])
  show ?thesis
  proof (cases "ms (length text) frontMatter text")
    case Nil
    then have "search (length text) frontMatter [] text = None"
      by (subst search.simps) (auto simp: search_later split: list.splits)
    moreover from Nil have "delimiter_line text = None \<or>
       (\<exists>t. delimiter_line text = Some t \<and> first_closing t = None)"
      by (auto simp: ms_frontMatter f split: option.splits)
    ultimately show ?thesis by (auto split: option.splits)
  next
    case (Cons r rs)
    then have "search (length text) frontMatter [] text = Some ([], r)"
      by (subst search.simps) simp
    moreover from Cons obtain t where t: "delimiter_line text = Some t"
        "closings (length text) t = r # rs"
      by (auto simp: ms_frontMatter split: option.splits)
    moreover from t have "first_closing t = Some r"
      by (simp add: f)
    ultimately show ?thesis by simp
  qed
qed

lemma hide_characterised:
  "getDocumentContentForPreview (str ''hide'') text =
     (case delimiter_line text of
        None \<Rightarrow> text
      | Some t \<Rightarrow> (case first_closing t of None \<Rightarrow> text | Some r \<Rightarrow> r))"
  by (simp add: getDocumentContentForPreview_def replace_first_def search_frontMatter
      split: option.splits)


lemma first_closing_has_closing: "first_closing s = Some r \<Longrightarrow> has_closing s"
proof (induction s rule: first_closing.induct)
  case (1 s)
  show ?case
  proof (cases "closing s")
    case (Some r')
    then show ?thesis by (cases s) (simp_all add: closing_def strip_newline_def)
  next
    case None
    with "1.prems" obtain t where t: "unit_step s = Some t" "first_closing t = Some r"
      by (subst (asm) first_closing.simps) (auto split: option.splits)
    with None 1 have h: "has_closing t" by simp
    from t(1) have "\<exists>pre. s = pre @ t"
      by (auto simp: unit_step_def split: list.splits if_splits intro: exI[of _ "[_]"] exI[of _ "[_, _]"])
    then obtain pre where "s = pre @ t" ..
    moreover have "has_closing (pre @ t)" using h by (induction pre) simp_all
    ultimately show ?thesis by simp
  qed
qed

lemma has_closing_append: "has_closing t \<Longrightarrow> has_closing (pre @ t)"
  by (induction pre) simp_all

lemma strip_newline_suffix: "strip_newline s = Some t \<Longrightarrow> \<exists>pre. s = pre @ t"
  by (auto simp: strip_newline_def split: list.splits if_splits intro: exI[of _ "[_]"] exI[of _ "[_, _]"])

lemma delimiter_line_suffix: "delimiter_line s = Some t \<Longrightarrow> \<exists>pre. s = pre @ t"
proof -
  assume a: "delimiter_line s = Some t"
  then obtain u where u: "strip_dashes s = Some u" "strip_newline (dropWhile blank u) = Some t"
    by (auto simp: delimiter_line_def split: option.splits)
  from u(1) have "u = drop 3 s" by (auto simp: strip_dashes_def split: if_splits)
  then have "s = take 3 s @ u" by simp
  moreover have "u = takeWhile blank u @ dropWhile blank u" by simp
  moreover from u(2) obtain p where "dropWhile blank u = p @ t"
    using strip_newline_suffix by blast
  ultimately have "s = (take 3 s @ takeWhile blank u @ p) @ t" by (metis append.assoc)
  then show ?thesis ..
qed

lemma unit_step_append: "unit_step b = Some b' \<Longrightarrow> unit_step (b @ tail) = Some (b' @ tail)"
  by (auto simp: unit_step_def split: list.splits if_splits)

lemma body_clear_first_closing:
  "body_clear b tail \<Longrightarrow> closing tail = Some r \<Longrightarrow> first_closing (b @ tail) = Some r"
proof (induction b tail rule: body_clear.induct)
  case (1 b tail)
  show ?case
  proof (cases "b = []")
    case True
    with "1.prems" show ?thesis by (subst first_closing.simps) simp
  next
    case False
    with "1.prems"(1) obtain b' where b: "closing (b @ tail) = None" "unit_step b = Some b'"
        "body_clear b' tail"
      by (subst (asm) body_clear.simps) (auto split: option.splits)
    with False "1.IH" "1.prems"(2) have "first_closing (b' @ tail) = Some r" by simp
    with b show ?thesis by (subst first_closing.simps) (simp add: unit_step_append)
  qed
qed

lemma delimiter_line_open:
  assumes "\<forall>c \<in> set ws. blank c" and "strip_newline nl = Some []"
  shows "delimiter_line ([45, 45, 45] @ ws @ nl @ t) = Some t"
proof -
  from assms(2) have nl: "nl = [10] \<or> nl = [13, 10]"
    by (auto simp: strip_newline_def split: list.splits if_splits)
  then have "dropWhile blank (ws @ nl @ t) = nl @ t"
    using assms(1) by (auto simp: dropWhile_append blank_def)
  moreover from nl have "strip_newline (nl @ t) = Some t" by (auto simp: strip_newline_def)
  ultimately show ?thesis by (simp add: delimiter_line_def strip_dashes_def)
qed

lemma closing_tail:
  assumes "\<forall>c \<in> set ws. blank c" and "nl \<in> {[10], [13, 10]}" and "nl' \<in> {[10], [13, 10]}"
  shows "closing (nl @ [45, 45, 45] @ ws @ nl' @ rest) = Some rest"
proof -
  from assms(2) have "strip_newline (nl @ [45, 45, 45] @ ws @ nl' @ rest)
      = Some ([45, 45, 45] @ ws @ nl' @ rest)"
    by (auto simp: strip_newline_def)
  moreover from assms(3) have "strip_newline nl' = Some []" by (auto simp: strip_newline_def)
  ultimately show ?thesis
    using assms(1) by (simp add: closing_def delimiter_line_open del: append.simps)
qed

text \<open>
  C4, as the code has it. Let the text be an opening delimiter line (three dashes, blanks,
  a line break), a body, and then a line break, a closing delimiter line and the rest of
  the document, where the line after the opening line is not itself a delimiter line, the
  body is a sequence of units of the pattern and no other closing delimiter starts inside
  it. Then hiding the front matter returns exactly the rest, whatever it is: the block is
  removed once, at the start, up to the next delimiter line, and what follows is unchanged.
\<close>

theorem front_matter_block_removed:
  assumes "\<forall>c \<in> set ws1. blank c" and "\<forall>c \<in> set ws2. blank c"
    and "nl1 \<in> {[10], [13, 10]}" and "nl2 \<in> {[10], [13, 10]}" and "nl3 \<in> {[10], [13, 10]}"
    and "delimiter_line (body @ nl2 @ [45, 45, 45] @ ws2 @ nl3 @ rest) = None"
    and "body_clear body (nl2 @ [45, 45, 45] @ ws2 @ nl3 @ rest)"
  shows "getDocumentContentForPreview (str ''hide'')
           ([45, 45, 45] @ ws1 @ nl1 @ body @ nl2 @ [45, 45, 45] @ ws2 @ nl3 @ rest) = rest"
proof -
  let ?tail = "nl2 @ [45, 45, 45] @ ws2 @ nl3 @ rest"
  from assms(3) have "strip_newline nl1 = Some []" by (auto simp: strip_newline_def)
  with assms(1) have d: "delimiter_line ([45, 45, 45] @ ws1 @ nl1 @ (body @ ?tail)) = Some (body @ ?tail)"
    by (rule delimiter_line_open)
  have "closing ?tail = Some rest" using assms(2,4,5) by (rule closing_tail)
  with assms(7) have "first_closing (body @ ?tail) = Some rest"
    by (rule body_clear_first_closing)
  with d show ?thesis by (simp add: hide_characterised del: append.simps)
qed

theorem front_matter_block_removed_witness:
  "delimiter_line (str ''title: x'' @ [10] @ [45, 45, 45] @ [] @ [10] @ str ''# Hi\<newline>'') = None
   \<and> body_clear (str ''title: x'') ([10] @ [45, 45, 45] @ [] @ [10] @ str ''# Hi\<newline>'')
   \<and> getDocumentContentForPreview (str ''hide'')
        (str ''---\<newline>title: x\<newline>---\<newline># Hi\<newline>'') = str ''# Hi\<newline>''"
proof -
  have d: "delimiter_line (str ''title: x'' @ [10] @ [45, 45, 45] @ [] @ [10] @ str ''# Hi\<newline>'')
      = None"
    by (simp add: delimiter_line_def strip_dashes_def str_def)
  have b: "body_clear (str ''title: x'') ([10] @ [45, 45, 45] @ [] @ [10] @ str ''# Hi\<newline>'')"
    by (simp add: body_clear.simps str_def closing_def strip_newline_def unit_step_def
        isLineTerminator_def)
  have "getDocumentContentForPreview (str ''hide'')
      ([45, 45, 45] @ [] @ [10] @ str ''title: x'' @ [10] @ [45, 45, 45] @ [] @ [10] @ str ''# Hi\<newline>'')
      = str ''# Hi\<newline>''"
    by (rule front_matter_block_removed [OF _ _ _ _ _ d b]) simp_all
  with d b show ?thesis by (simp add: str_def)
qed

theorem front_matter_counterexample:
  "getDocumentContentForPreview (str ''hide'') (str ''---\<newline>---\<newline>foo\<newline>---\<newline>rest'')
     = str ''rest''
   \<and> getDocumentContentForPreview (str ''hide'') (str ''---\<newline>---\<newline>foo\<newline>---\<newline>rest'')
     \<noteq> str ''foo\<newline>---\<newline>rest''
   \<and> getDocumentContentForPreview (str ''hide'') (str ''---\<newline>title: x\<newline>---'')
     = str ''---\<newline>title: x\<newline>---''"
  by (simp add: getDocumentContentForPreview_def replace_first_def frontMatter_def newline_def
      dashes_def blanks_def isLineTerminator_def numeral_3_eq_3 ms.simps search.simps str_def)

text \<open>
  C5. A text that does not start with a delimiter line (three dashes, any blanks, a line
  break), and a text in which no line break is followed by a delimiter line, come back
  unchanged when the front matter is hidden.
\<close>

theorem no_front_matter_unchanged:
  assumes "delimiter_line text = None \<or> \<not> has_closing text"
  shows "getDocumentContentForPreview (str ''hide'') text = text"
proof (cases "delimiter_line text")
  case None
  then show ?thesis by (simp add: hide_characterised)
next
  case (Some t)
  with assms have n: "\<not> has_closing text" by simp
  from Some obtain pre where "text = pre @ t" using delimiter_line_suffix by blast
  with n have "\<not> has_closing t" using has_closing_append by blast
  then have "first_closing t = None"
    using first_closing_has_closing by (cases "first_closing t") auto
  with Some show ?thesis by (simp add: hide_characterised)
qed

theorem no_front_matter_unchanged_witness:
  "delimiter_line (str ''# Title\<newline>---\<newline>a\<newline>---\<newline>'') = None
   \<and> getDocumentContentForPreview (str ''hide'') (str ''# Title\<newline>---\<newline>a\<newline>---\<newline>'')
      = str ''# Title\<newline>---\<newline>a\<newline>---\<newline>''
   \<and> delimiter_line (str ''---\<newline>title: x\<newline>text'') \<noteq> None
   \<and> \<not> has_closing (str ''---\<newline>title: x\<newline>text'')
   \<and> getDocumentContentForPreview (str ''hide'') (str ''---\<newline>title: x\<newline>text'')
      = str ''---\<newline>title: x\<newline>text''"
  using no_front_matter_unchanged [of "str ''# Title\<newline>---\<newline>a\<newline>---\<newline>''"]
    no_front_matter_unchanged [of "str ''---\<newline>title: x\<newline>text''"]
  by (simp add: str_def delimiter_line_def strip_dashes_def strip_newline_def blank_def closing_def)

section \<open>Properties of the code-block callback, of the references and of the commands\<close>

text \<open>
  C6. When the language tag is empty or unknown to the highlighter, or when highlighting
  a known language throws, the callback returns the escaped code between
  \<^verbatim>\<open><pre class="hljs"><code><div>\<close> and \<^verbatim>\<open></div></code></pre>\<close>; only when a known
  language is highlighted without an error is the highlighter's output put between the
  two instead. The callback returns a string in every case: the error does not leave it.
\<close>

theorem highlight_falls_back_to_escaped:
  \<open>(lang = [] \<or> \<not> getLanguage lang \<or> (\<exists>e. hljs_highlight lang code = Inl e)
      \<longrightarrow> highlight getLanguage hljs_highlight escapeHtml code lang
          = str ''<pre class="hljs"><code><div>'' @ escapeHtml code
              @ str ''</div></code></pre>'')
   \<and> (lang \<noteq> [] \<and> getLanguage lang \<and> hljs_highlight lang code = Inr v
      \<longrightarrow> highlight getLanguage hljs_highlight escapeHtml code lang
          = str ''<pre class="hljs"><code><div>'' @ v @ str ''</div></code></pre>'')\<close>
  by (auto simp: highlight_def)

theorem highlight_falls_back_to_escaped_witness:
  \<open>highlight (\<lambda>l. l = str ''js'') (\<lambda>l c. Inl ()) (\<lambda>c. str ''&lt;b&gt;'') (str ''<b>'') []
     = str ''<pre class="hljs"><code><div>&lt;b&gt;</div></code></pre>''
   \<and> \<not> (\<lambda>l. l = str ''js'') (str ''zz'')
   \<and> highlight (\<lambda>l. l = str ''js'') (\<lambda>l c. Inl ()) (\<lambda>c. str ''&lt;b&gt;'') (str ''<b>'') (str ''zz'')
     = str ''<pre class="hljs"><code><div>&lt;b&gt;</div></code></pre>''
   \<and> (\<lambda>l. l = str ''js'') (str ''js'')
   \<and> highlight (\<lambda>l. l = str ''js'') (\<lambda>l c. Inl ()) (\<lambda>c. str ''&lt;b&gt;'') (str ''<b>'') (str ''js'')
     = str ''<pre class="hljs"><code><div>&lt;b&gt;</div></code></pre>''
   \<and> highlight (\<lambda>l. l = str ''js'') (\<lambda>l c. Inr (str ''<span>x</span>'') :: unit + jsstring)
        (\<lambda>c. str ''x'') (str ''x'') (str ''js'')
     = str ''<pre class="hljs"><code><div><span>x</span></div></code></pre>''\<close>
  using
    highlight_falls_back_to_escaped [where lang = "[]" and getLanguage = "\<lambda>l. l = str ''js''"
      and hljs_highlight = "\<lambda>l c. Inl ()" and code = "str ''<b>''"
      and escapeHtml = "\<lambda>c. str ''&lt;b&gt;''" and v = "[]"]
    highlight_falls_back_to_escaped [where lang = "str ''zz''" and getLanguage = "\<lambda>l. l = str ''js''"
      and hljs_highlight = "\<lambda>l c. Inl ()" and code = "str ''<b>''"
      and escapeHtml = "\<lambda>c. str ''&lt;b&gt;''" and v = "[]"]
    highlight_falls_back_to_escaped [where lang = "str ''js''" and getLanguage = "\<lambda>l. l = str ''js''"
      and hljs_highlight = "\<lambda>l c. Inl ()" and code = "str ''<b>''"
      and escapeHtml = "\<lambda>c. str ''&lt;b&gt;''" and v = "[]"]
    highlight_falls_back_to_escaped [where lang = "str ''js''" and getLanguage = "\<lambda>l. l = str ''js''"
      and hljs_highlight = "\<lambda>l c. Inr (str ''<span>x</span>'') :: unit + jsstring"
      and code = "str ''x''" and escapeHtml = "\<lambda>c. str ''x''" and v = "str ''<span>x</span>''"]
  by (simp add: str_def)

text \<open>
  C7. For a non-empty \<open>href\<close> the cases are tried in this order: an \<open>href\<close> in which the
  host finds a scheme is returned as it is; otherwise an absolute path is handed, as it
  is, to \<open>Uri.file\<close>; otherwise, with a workspace open, the path joined to the workspace
  root is; otherwise the path joined to the directory of the previewed file is.
\<close>

theorem fixHref_cases:
  assumes "href \<noteq> []"
  shows "(uri_parse_scheme h href \<noteq> [] \<longrightarrow> fixHref h resource href = href)
    \<and> (uri_parse_scheme h href = [] \<and> isAbsolute h href
        \<longrightarrow> fixHref h resource href = uri_file_toString h href)
    \<and> (uri_parse_scheme h href = [] \<and> \<not> isAbsolute h href \<and> rootPath h = Some root \<and> root \<noteq> []
        \<longrightarrow> fixHref h resource href = uri_file_toString h (path_join h root href))
    \<and> (uri_parse_scheme h href = [] \<and> \<not> isAbsolute h href
        \<and> (rootPath h = None \<or> rootPath h = Some [])
        \<longrightarrow> fixHref h resource href
            = uri_file_toString h (path_join h (path_dirname h (fsPath h resource)) href))"
  using assms by (auto simp: fixHref_def)

theorem fixHref_cases_witness:
  "fixHref (sample_host None) (file_uri (str ''/docs/a.md'')) (str ''http://x/y'') = str ''http://x/y''
   \<and> uri_parse_scheme (sample_host None) (str ''/css/s.css'') = []
   \<and> isAbsolute (sample_host None) (str ''/css/s.css'')
   \<and> fixHref (sample_host None) (file_uri (str ''/docs/a.md'')) (str ''/css/s.css'')
      = str ''file:///css/s.css''
   \<and> \<not> isAbsolute (sample_host (Some (str ''/ws''))) (str ''s.css'')
   \<and> fixHref (sample_host (Some (str ''/ws''))) (file_uri (str ''/docs/a.md'')) (str ''s.css'')
      = str ''file:///ws/s.css''
   \<and> fixHref (sample_host None) (file_uri (str ''/docs/a.md'')) (str ''s.css'')
      = str ''file:///docs/s.css''"
  using
    fixHref_cases [where href = "str ''http://x/y''" and h = "sample_host None"
      and resource = "file_uri (str ''/docs/a.md'')" and root = "[]"]
    fixHref_cases [where href = "str ''/css/s.css''" and h = "sample_host None"
      and resource = "file_uri (str ''/docs/a.md'')" and root = "[]"]
    fixHref_cases [where href = "str ''s.css''" and h = "sample_host (Some (str ''/ws''))"
      and resource = "file_uri (str ''/docs/a.md'')" and root = "str ''/ws''"]
    fixHref_cases [where href = "str ''s.css''" and h = "sample_host None"
      and resource = "file_uri (str ''/docs/a.md'')" and root = "[]"]
  by (simp add: sample_host_def isAbsolute_def file_uri_def str_def)

text \<open>
  C8. Opening a preview from the command palette (no URI argument) with an editor active
  and telemetry configured sends the event \<open>openPreview\<close> whose field \<open>how\<close> is the string
  \<open>pallete\<close>, which is neither \<open>action\<close> nor \<open>palette\<close>.
\<close>

theorem showPreview_how_is_pallete:
  "snd (showPreview sample_toString path
          (Some \<lparr>document = \<lparr>languageId = str ''markdown'', uri = file_uri (str ''/a.md'')\<rparr>,
                 viewColumn = Some One\<rparr>) True None None)
     = [(str ''openPreview'', [(str ''where'', str ''inPlace''), (str ''how'', str ''pallete'')])]
   \<and> str ''pallete'' \<noteq> str ''palette'' \<and> str ''pallete'' \<noteq> str ''action''"
  by (simp add: showPreview_def str_def)

end
